theory Spec2Isabelle
  imports Main "HOL-Library.Multiset"
begin

section \<open>Release grouping (\<open>ReleasesView\<close> in \<open>src/App.tsx\<close>)\<close>

text \<open>
  A release as the backend delivers it. Only the fields read by the grouping code are
  kept. \<open>release_type\<close> is \<open>None\<close> when the field is missing or \<open>null\<close>;
  \<open>release_date\<close> is the raw string handed to \<open>new Date(...)\<close>.
\<close>

record release =
  release_id :: string
  title :: string
  release_type :: "string option"
  release_date :: string

datatype js_error = TypeError

text \<open>
  The object \<open>grouped\<close>: its own properties in insertion order, each holding an array.
  It is created by the literal \<open>{}\<close>, so a property read that finds no own property
  continues in \<open>Object.prototype\<close>; every property found there is a function or an
  object, hence truthy, and none of them has a \<open>push\<close> method.
\<close>

type_synonym grouped = "(string \<times> release list) list"

definition object_prototype_keys :: "string list" where
  "object_prototype_keys =
     [''constructor'', ''__defineGetter__'', ''__defineSetter__'', ''hasOwnProperty'',
      ''__lookupGetter__'', ''__lookupSetter__'', ''isPrototypeOf'',
      ''propertyIsEnumerable'', ''toString'', ''valueOf'', ''__proto__'',
      ''toLocaleString'']"

text \<open>Truthiness of \<open>grouped[type]\<close>.\<close>

definition truthy_get :: "grouped \<Rightarrow> string \<Rightarrow> bool" where
  "truthy_get g t =
     (case map_of g t of Some rs \<Rightarrow> True | None \<Rightarrow> t \<in> set object_prototype_keys)"

text \<open>\<open>release.release_type || 'Other'\<close>: a missing and an empty type are both falsy.\<close>

definition release_type_or_other :: "release \<Rightarrow> string" where
  "release_type_or_other r =
     (case release_type r of
        None \<Rightarrow> ''Other''
      | Some t \<Rightarrow> if t = [] then ''Other'' else t)"

text \<open>\<open>grouped[type].push(release)\<close> on an own property.\<close>

fun push_own :: "string \<Rightarrow> release \<Rightarrow> grouped \<Rightarrow> grouped" where
  "push_own t r [] = []"
| "push_own t r ((k, rs) # g) =
     (if k = t then (k, rs @ [r]) # g else (k, rs) # push_own t r g)"

text \<open>
  The body of the first \<open>forEach\<close>. When \<open>grouped[type]\<close> is truthy but not an own
  array (an inherited property), \<open>push\<close> is not a function and the call raises.
\<close>

definition push_release :: "grouped \<Rightarrow> release \<Rightarrow> js_error + grouped" where
  "push_release g r =
     (let type = release_type_or_other r;
          g' = (if \<not> truthy_get g type then g @ [(type, [])] else g)
      in case map_of g' type of
           Some rs \<Rightarrow> Inr (push_own type r g')
         | None \<Rightarrow> Inl TypeError)"

fun group_forEach :: "grouped \<Rightarrow> release list \<Rightarrow> js_error + grouped" where
  "group_forEach g [] = Inr g"
| "group_forEach g (r # rs) =
     (case push_release g r of
        Inl e \<Rightarrow> Inl e
      | Inr g' \<Rightarrow> group_forEach g' rs)"

text \<open>
  The comparator \<open>(a, b) => dateB.getTime() - dateA.getTime()\<close>. The parameter
  \<open>getTime\<close> stands for \<open>s \<mapsto> new Date(s).getTime()\<close>, with \<open>None\<close> for the
  \<open>NaN\<close> of an invalid date. A \<open>NaN\<close> result of the comparator is read by
  \<open>Array.prototype.sort\<close> as \<open>+0\<close>. Only the sign of the difference is used.
\<close>

definition compare_dates :: "(string \<Rightarrow> int option) \<Rightarrow> release \<Rightarrow> release \<Rightarrow> int" where
  "compare_dates getTime a b =
     (case getTime (release_date b) of
        None \<Rightarrow> 0
      | Some tb \<Rightarrow> (case getTime (release_date a) of None \<Rightarrow> 0 | Some ta \<Rightarrow> tb - ta))"

text \<open>
  \<open>Array.prototype.sort\<close> as V8 (Node, Chrome) performs it on an array of fewer than
  64 elements: \<open>CountAndMakeRun\<close> takes the longest initial run, non-descending or
  strictly descending by the comparator, and reverses a descending one; then
  \<open>BinaryInsertionSort\<close> inserts every later element into the run, at the place a
  binary search finds for it. A comparator result \<open>NaN\<close> has already been replaced
  by \<open>+0\<close>. A longer array is cut into runs made this way, which are then merged;
  when the comparator is consistent, the outcome is the same stable sort for every
  length and every engine, and the language fixes no more than that. The comparator
  above is consistent on an array whose dates are all valid.
\<close>

text \<open>The run continues while \<open>order\<close> keeps the direction of the first two elements.\<close>

fun extend_run :: "('a \<Rightarrow> 'a \<Rightarrow> int) \<Rightarrow> bool \<Rightarrow> 'a \<Rightarrow> 'a list \<Rightarrow> 'a list \<times> 'a list" where
  "extend_run cmp descending previous [] = ([], [])"
| "extend_run cmp descending previous (current # rest) =
     (let order = cmp current previous
      in if (if descending then 0 \<le> order else order < 0) then ([], current # rest)
         else (let (run, rest') = extend_run cmp descending current rest
               in (current # run, rest')))"

definition count_and_make_run ::
  "('a \<Rightarrow> 'a \<Rightarrow> int) \<Rightarrow> 'a \<Rightarrow> 'a \<Rightarrow> 'a list \<Rightarrow> 'a list \<times> 'a list" where
  "count_and_make_run cmp a0 a1 rest =
     (let descending = cmp a1 a0 < 0;
          (run, rest') = extend_run cmp descending a1 rest
      in (if descending then rev (a0 # a1 # run) else a0 # a1 # run, rest'))"

text \<open>
  The binary search of \<open>BinaryInsertionSort\<close>: the place after the last element that
  the pivot does not precede. It reads \<open>work\<close> only below \<open>right\<close>, which never
  exceeds the length of \<open>work\<close>.
\<close>

function binary_search :: "('a \<Rightarrow> 'a \<Rightarrow> int) \<Rightarrow> 'a \<Rightarrow> 'a list \<Rightarrow> nat \<Rightarrow> nat \<Rightarrow> nat" where
  "binary_search cmp pivot work left right =
     (if left < right then
        (let mid = left + (right - left) div 2
         in if cmp pivot (work ! mid) < 0 then binary_search cmp pivot work left mid
            else binary_search cmp pivot work (mid + 1) right)
      else left)"
  by pat_completeness auto
termination
proof (relation "measure (\<lambda>(cmp, pivot, work, left, right). right - left)")
  show "wf (measure (\<lambda>(cmp, pivot, work, left, right). right - left))"
    by simp
next
  fix cmp :: "'a \<Rightarrow> 'a \<Rightarrow> int" and pivot work and left right mid :: nat
  assume "left < right" and "mid = left + (right - left) div 2"
  then show "((cmp, pivot, work, left, mid), (cmp, pivot, work, left, right))
             \<in> measure (\<lambda>(cmp, pivot, work, left, right). right - left)"
    by simp
next
  fix cmp :: "'a \<Rightarrow> 'a \<Rightarrow> int" and pivot work and left right mid :: nat
  assume "left < right" and "mid = left + (right - left) div 2"
  then show "((cmp, pivot, work, mid + 1, right), (cmp, pivot, work, left, right))
             \<in> measure (\<lambda>(cmp, pivot, work, left, right). right - left)"
    by simp
qed

declare binary_search.simps [simp del]

definition insert_at :: "nat \<Rightarrow> 'a \<Rightarrow> 'a list \<Rightarrow> 'a list" where
  "insert_at left pivot work = take left work @ pivot # drop left work"

fun binary_insertion_sort :: "('a \<Rightarrow> 'a \<Rightarrow> int) \<Rightarrow> 'a list \<Rightarrow> 'a list \<Rightarrow> 'a list" where
  "binary_insertion_sort cmp work [] = work"
| "binary_insertion_sort cmp work (pivot # rest) =
     binary_insertion_sort cmp
       (insert_at (binary_search cmp pivot work 0 (length work)) pivot work) rest"

definition array_sort :: "('a \<Rightarrow> 'a \<Rightarrow> int) \<Rightarrow> 'a list \<Rightarrow> 'a list" where
  "array_sort cmp xs =
     (case xs of
        a0 # a1 # rest \<Rightarrow>
          (let (run, rest') = count_and_make_run cmp a0 a1 rest
           in binary_insertion_sort cmp run rest')
      | _ \<Rightarrow> xs)"

definition groupReleasesByType ::
  "(string \<Rightarrow> int option) \<Rightarrow> release list \<Rightarrow> js_error + grouped" where
  "groupReleasesByType getTime releases =
     (case group_forEach [] releases of
        Inl e \<Rightarrow> Inl e
      | Inr g \<Rightarrow> Inr (map (\<lambda>(t, rs). (t, array_sort (compare_dates getTime) rs)) g))"

text \<open>
  \<open>Object.keys\<close>: the own keys that are array indices (canonical decimal numerals up
  to \<open>2^32 - 2\<close>) in ascending numeric order, then the other keys in insertion order.
\<close>

definition is_digit :: "char \<Rightarrow> bool" where
  "is_digit c \<longleftrightarrow> c \<in> set ''0123456789''"

definition digit_value :: "char \<Rightarrow> nat" where
  "digit_value c = of_char c - 48"

definition numeric_value :: "string \<Rightarrow> nat" where
  "numeric_value s = foldl (\<lambda>n c. 10 * n + digit_value c) 0 s"

definition is_array_index :: "string \<Rightarrow> bool" where
  "is_array_index s =
     (case s of
        [] \<Rightarrow> False
      | c # cs \<Rightarrow> list_all is_digit s \<and> (if c = CHR ''0'' then cs = [] else True)
                 \<and> numeric_value s \<le> 4294967294)"

definition object_keys :: "grouped \<Rightarrow> string list" where
  "object_keys g =
     (let ks = map fst g
      in sort_key numeric_value (filter is_array_index ks)
         @ filter (\<lambda>k. \<not> is_array_index k) ks)"

definition typeOrder :: "string list" where
  "typeOrder = [''Album'', ''EP'', ''Single'', ''Compilation'', ''Soundtrack'', ''Other'']"

text \<open>\<open>typeOrder.filter(...)\<close> followed by the \<open>forEach\<close> that pushes the other keys.\<close>

definition sortedTypes :: "grouped \<Rightarrow> string list" where
  "sortedTypes g =
     filter (truthy_get g) typeOrder @ filter (\<lambda>t. t \<notin> set typeOrder) (object_keys g)"

text \<open>\<open>groupedReleases[type]\<close> for a key of \<open>sortedTypes\<close>, always an own property.\<close>

definition bucket :: "grouped \<Rightarrow> string \<Rightarrow> release list" where
  "bucket g t = (case map_of g t of Some rs \<Rightarrow> rs | None \<Rightarrow> [])"

text \<open>The sections rendered by \<open>ReleasesView\<close>: each type with its releases, in order.\<close>

definition releases_by_type ::
  "(string \<Rightarrow> int option) \<Rightarrow> release list \<Rightarrow> js_error + (string \<times> release list) list" where
  "releases_by_type getTime releases =
     (case groupReleasesByType getTime releases of
        Inl e \<Rightarrow> Inl e
      | Inr g \<Rightarrow> Inr (map (\<lambda>t. (t, bucket g t)) (sortedTypes g)))"

text \<open>Order of first appearance: every element once, at the place of its first occurrence.\<close>

definition first_appearance :: "'a list \<Rightarrow> 'a list" where
  "first_appearance xs = rev (remdups (rev xs))"


text \<open>
  The bucket order as the specification words it: the canonical types that occur, in
  canonical order, then every other type in order of first appearance.
\<close>

definition claimed_bucket_order :: "string list \<Rightarrow> string list" where
  "claimed_bucket_order ts =
     filter (\<lambda>t. t \<in> set ts) [''Album'', ''EP'', ''Single'', ''Compilation'', ''Soundtrack'', ''Other'']
     @ filter (\<lambda>t. t \<notin> set [''Album'', ''EP'', ''Single'', ''Compilation'', ''Soundtrack'', ''Other''])
         (first_appearance ts)"

section \<open>Artist search and follow (\<open>ArtistSearchSection\<close> in \<open>src/App.tsx\<close>)\<close>

record artist_hit =
  mbid :: string
  name :: string
  is_followed :: bool

text \<open>
  A rejected request: an HTTP error response with its status, or no response at all
  (network fault, timeout), where \<open>error.response\<close> is undefined.
\<close>

datatype api_error = HttpError nat | NetworkError

text \<open>\<open>error.response?.status\<close>\<close>

definition response_status :: "api_error \<Rightarrow> nat option" where
  "response_status e = (case e of HttpError n \<Rightarrow> Some n | NetworkError \<Rightarrow> None)"

text \<open>
  The body of a fulfilled search: with an \<open>artists\<close> array, without a truthy
  \<open>artists\<close> field, or no body at all (reading \<open>results.artists\<close> then raises
  inside the \<open>try\<close> block).
\<close>

datatype search_response = Artists "artist_hit list" | NoArtists | NoBody

text \<open>
  The component state (the four \<open>useState\<close> cells), the pending debounce timer (the
  time at which it is due and the query its closure captured), a clock, and the
  observable effects: the calls made to \<open>api.artists.search\<close> (time, query, limit) and
  \<open>api.artists.add\<close> (name, mbid), the requests not yet settled (by position in the
  call logs), the \<open>alert\<close> messages shown, the \<open>console.error\<close> count and the number
  of \<open>onArtistAdded\<close> notifications.
\<close>

record search_section =
  searchQuery :: string
  searchResults :: "artist_hit list"
  isSearching :: bool
  addingArtistId :: "string option"
  timer :: "(nat \<times> string) option"
  clock :: nat
  searchCalls :: "(nat \<times> string \<times> nat) list"
  searchPending :: "nat list"
  addCalls :: "(string \<times> string) list"
  addPending :: "nat list"
  alerts :: "string list"
  consoleErrors :: nat
  artistAdded :: nat

text \<open>The state after the first render: initial cell values, and the effect has run once.\<close>

definition mount :: search_section where
  "mount = \<lparr>searchQuery = [], searchResults = [], isSearching = False,
             addingArtistId = None, timer = Some (300, []), clock = 0,
             searchCalls = [], searchPending = [], addCalls = [], addPending = [],
             alerts = [], consoleErrors = 0, artistAdded = 0\<rparr>"

text \<open>
  \<open>setSearchQuery\<close> together with the debounce effect, whose dependency is
  \<open>searchQuery\<close>: an unchanged value re-runs nothing; a changed value runs the cleanup
  (\<open>clearTimeout\<close>) and sets a new 300 ms timer for the new value.
\<close>

definition setSearchQuery :: "string \<Rightarrow> search_section \<Rightarrow> search_section" where
  "setSearchQuery q s =
     (if q = searchQuery s then s
      else s\<lparr>searchQuery := q, timer := Some (clock s + 300, q)\<rparr>)"

text \<open>\<open>handleSearch\<close> up to its \<open>await\<close>.\<close>

definition handleSearch :: "string \<Rightarrow> search_section \<Rightarrow> search_section" where
  "handleSearch query s =
     (if length query < 2 then s\<lparr>searchResults := []\<rparr>
      else s\<lparr>isSearching := True,
             searchCalls := searchCalls s @ [(clock s, query, 8)],
             searchPending := searchPending s @ [length (searchCalls s)]\<rparr>)"

text \<open>\<open>handleSearch\<close> after its \<open>await\<close>, for a fulfilled and for a rejected request.\<close>

definition search_fulfilled :: "nat \<Rightarrow> search_response \<Rightarrow> search_section \<Rightarrow> search_section" where
  "search_fulfilled rid body s =
     (if rid \<in> set (searchPending s) then
        (case body of
           Artists xs \<Rightarrow> s\<lparr>searchResults := xs\<rparr>
         | NoArtists \<Rightarrow> s\<lparr>searchResults := []\<rparr>
         | NoBody \<Rightarrow> s\<lparr>searchResults := [], consoleErrors := consoleErrors s + 1\<rparr>)
        \<lparr>isSearching := False, searchPending := removeAll rid (searchPending s)\<rparr>
      else s)"

definition search_rejected :: "nat \<Rightarrow> api_error \<Rightarrow> search_section \<Rightarrow> search_section" where
  "search_rejected rid e s =
     (if rid \<in> set (searchPending s) then
        s\<lparr>searchResults := [], consoleErrors := consoleErrors s + 1,
          isSearching := False, searchPending := removeAll rid (searchPending s)\<rparr>
      else s)"

text \<open>
  Time passes. A timer that becomes due fires, at its due time, and calls
  \<open>handleSearch\<close> with the query of the render that set it. At most one timer is
  pending, since the effect clears the previous one before it sets the next.
\<close>

definition elapse :: "nat \<Rightarrow> search_section \<Rightarrow> search_section" where
  "elapse d s =
     (case timer s of
        None \<Rightarrow> s\<lparr>clock := clock s + d\<rparr>
      | Some (due, q) \<Rightarrow>
          if due \<le> clock s + d
          then (handleSearch q (s\<lparr>clock := due, timer := None\<rparr>))\<lparr>clock := clock s + d\<rparr>
          else s\<lparr>clock := clock s + d\<rparr>)"

definition already_followed_message :: string where
  "already_followed_message = ''This artist is already in your follow list!''"

definition failed_message :: string where
  "failed_message = ''Failed to add artist. Please try again.''"

text \<open>\<open>handleAddArtist\<close> up to its \<open>await\<close>, then its three ways of finishing.\<close>

definition handleAddArtist :: "artist_hit \<Rightarrow> search_section \<Rightarrow> search_section" where
  "handleAddArtist artist s =
     s\<lparr>addingArtistId := Some (mbid artist),
       addCalls := addCalls s @ [(name artist, mbid artist)],
       addPending := addPending s @ [length (addCalls s)]\<rparr>"

definition add_fulfilled :: "nat \<Rightarrow> search_section \<Rightarrow> search_section" where
  "add_fulfilled aid s =
     (if aid \<in> set (addPending s) then
        (setSearchQuery [] s)
        \<lparr>searchResults := [], artistAdded := artistAdded s + 1,
          addingArtistId := None, addPending := removeAll aid (addPending s)\<rparr>
      else s)"

definition add_rejected :: "nat \<Rightarrow> api_error \<Rightarrow> search_section \<Rightarrow> search_section" where
  "add_rejected aid e s =
     (if aid \<in> set (addPending s) then
        s\<lparr>consoleErrors := consoleErrors s + 1,
          alerts := alerts s @ [if response_status e = Some 409 then already_followed_message
                                else failed_message],
          addingArtistId := None, addPending := removeAll aid (addPending s)\<rparr>
      else s)"

text \<open>
  What can happen to the mounted component. The follow button of a result is disabled
  while \<open>artist.is_followed || addingArtistId === artist.mbid\<close>.
\<close>

datatype event =
    Change string
  | Elapse nat
  | SearchFulfilled nat search_response
  | SearchRejected nat api_error
  | ClickFollow artist_hit
  | AddFulfilled nat
  | AddRejected nat api_error

fun step :: "search_section \<Rightarrow> event \<Rightarrow> search_section" where
  "step s (Change q) = setSearchQuery q s"
| "step s (Elapse d) = elapse d s"
| "step s (SearchFulfilled rid body) = search_fulfilled rid body s"
| "step s (SearchRejected rid e) = search_rejected rid e s"
| "step s (ClickFollow a) =
     (if a \<in> set (searchResults s) \<and> \<not> is_followed a \<and> addingArtistId s \<noteq> Some (mbid a)
      then handleAddArtist a s else s)"
| "step s (AddFulfilled aid) = add_fulfilled aid s"
| "step s (AddRejected aid e) = add_rejected aid e s"

definition run :: "search_section \<Rightarrow> event list \<Rightarrow> search_section" where
  "run s es = foldl step s es"

text \<open>Keystrokes: each a pause followed by a new value of the input field.\<close>

definition typing :: "(nat \<times> string) list \<Rightarrow> event list" where
  "typing ks = concat (map (\<lambda>(d, q). [Elapse d, Change q]) ks)"

section \<open>Connection gate (\<open>App\<close> and \<open>MainContent\<close> in \<open>src/App.tsx\<close>)\<close>

record app =
  currentView :: string
  sidebarOpen :: bool
  apiConnected :: "bool option"
  isRefreshing :: bool

datatype view =
    ConnectionHelp | ReleasesView | ArtistsView | StatsView
  | NotificationsView | SyncView | ComingSoonView

datatype api_method = GetNewReleases | GetAllArtists | SearchArtists | AddArtist | GetReleaseStats

definition initial_app :: app where
  "initial_app = \<lparr>currentView = ''releases'', sidebarOpen = False,
                   apiConnected = None, isRefreshing = False\<rparr>"

text \<open>\<open>testConnection\<close>, given whether \<open>api.health()\<close> was fulfilled.\<close>

definition testConnection :: "bool \<Rightarrow> app \<Rightarrow> app" where
  "testConnection healthy s = s\<lparr>apiConnected := Some healthy\<rparr>"

definition handleViewChange :: "string \<Rightarrow> app \<Rightarrow> app" where
  "handleViewChange viewId s = s\<lparr>currentView := viewId, sidebarOpen := False\<rparr>"

text \<open>
  \<open>handleRefresh\<close> up to the final \<open>setTimeout\<close>, given whether
  \<open>invalidateQueries\<close> and \<open>api.health()\<close> were fulfilled.
\<close>

definition handleRefresh :: "bool \<Rightarrow> bool \<Rightarrow> app \<Rightarrow> app" where
  "handleRefresh invalidated healthy s =
     s\<lparr>isRefreshing := True, apiConnected := Some (invalidated \<and> healthy)\<rparr>"

text \<open>\<open>!apiConnected\<close> holds for \<open>null\<close> and for \<open>false\<close>.\<close>

definition MainContent :: "string \<Rightarrow> bool option \<Rightarrow> view" where
  "MainContent view connected =
     (if connected \<noteq> Some True then ConnectionHelp
      else if view = ''releases'' then ReleasesView
      else if view = ''artists'' then ArtistsView
      else if view = ''stats'' then StatsView
      else if view = ''notifications'' then NotificationsView
      else if view = ''sync'' then SyncView
      else ComingSoonView)"

definition content :: "app \<Rightarrow> view" where
  "content s = MainContent (currentView s) (apiConnected s)"

text \<open>The backend methods each view can call, through \<open>useQuery\<close> or a handler.\<close>

fun view_api :: "view \<Rightarrow> api_method list" where
  "view_api ReleasesView = [GetNewReleases]"
| "view_api ArtistsView = [GetAllArtists, SearchArtists, AddArtist]"
| "view_api StatsView = [GetReleaseStats]"
| "view_api ConnectionHelp = []"
| "view_api NotificationsView = []"
| "view_api SyncView = []"
| "view_api ComingSoonView = []"


section \<open>Notions used to state the properties\<close>

text \<open>
  \<open>not_older getTime x y\<close>: both releases carry a valid date and \<open>y\<close> is not more
  recent than \<open>x\<close>. A bucket is newest-first when this holds for every pair in list order.
\<close>

definition not_older :: "(string \<Rightarrow> int option) \<Rightarrow> release \<Rightarrow> release \<Rightarrow> bool" where
  "not_older getTime x y =
     (case getTime (release_date x) of
        None \<Rightarrow> False
      | Some tx \<Rightarrow> (case getTime (release_date y) of None \<Rightarrow> False | Some ty \<Rightarrow> ty \<le> tx))"

text \<open>On valid dates the comparator orders by this key, ascending.\<close>

definition newest_first_key :: "(string \<Rightarrow> int option) \<Rightarrow> release \<Rightarrow> int" where
  "newest_first_key getTime r = (case getTime (release_date r) of None \<Rightarrow> 0 | Some t \<Rightarrow> - t)"

text \<open>
  The grouped object in closed form: one entry per type, in order of first appearance,
  holding the releases of that type in input order.
\<close>

definition grouped_of :: "release list \<Rightarrow> grouped" where
  "grouped_of rs =
     map (\<lambda>t. (t, filter (\<lambda>r. release_type_or_other r = t) rs))
         (first_appearance (map release_type_or_other rs))"


section \<open>Example data\<close>

text \<open>
  A date parser that knows two ISO dates (their UTC epoch milliseconds) and rejects
  every other string, the empty one included, as \<open>new Date('')\<close> does.
\<close>

definition example_getTime :: "string \<Rightarrow> int option" where
  "example_getTime s =
     (if s = ''2024-01-01'' then Some 1704067200000
      else if s = ''2024-06-01'' then Some 1717200000000
      else None)"

definition single_jan :: release where
  "single_jan = \<lparr>release_id = ''1'', title = ''First Single'',
                  release_type = Some ''Single'', release_date = ''2024-01-01''\<rparr>"

definition album_jan :: release where
  "album_jan = \<lparr>release_id = ''2'', title = ''Winter Album'',
                 release_type = Some ''Album'', release_date = ''2024-01-01''\<rparr>"

definition single_jun :: release where
  "single_jun = \<lparr>release_id = ''3'', title = ''Summer Single'',
                  release_type = Some ''Single'', release_date = ''2024-06-01''\<rparr>"

definition ep_jan :: release where
  "ep_jan = \<lparr>release_id = ''4'', title = ''Short Player'',
              release_type = Some ''EP'', release_date = ''2024-01-01''\<rparr>"

definition single_jan_too :: release where
  "single_jan_too = \<lparr>release_id = ''5'', title = ''Second Single'',
                      release_type = Some ''Single'', release_date = ''2024-01-01''\<rparr>"

definition live_jan :: release where
  "live_jan = \<lparr>release_id = ''6'', title = ''On Stage'',
                release_type = Some ''Live'', release_date = ''2024-01-01''\<rparr>"

definition untyped_jun :: release where
  "untyped_jun = \<lparr>release_id = ''7'', title = ''Untitled'',
                   release_type = None, release_date = ''2024-06-01''\<rparr>"

definition numbered_jan :: release where
  "numbered_jan = \<lparr>release_id = ''8'', title = ''Seven'',
                    release_type = Some ''7'', release_date = ''2024-01-01''\<rparr>"

definition album_undated :: release where
  "album_undated = \<lparr>release_id = ''9'', title = ''Lost Tapes'',
                     release_type = Some ''Album'', release_date = []\<rparr>"

definition album_jun :: release where
  "album_jun = \<lparr>release_id = ''10'', title = ''Summer Album'',
                 release_type = Some ''Album'', release_date = ''2024-06-01''\<rparr>"

definition album_jun_too :: release where
  "album_jun_too = \<lparr>release_id = ''11'', title = ''Summer Album, Deluxe'',
                     release_type = Some ''Album'', release_date = ''2024-06-01''\<rparr>"

definition example_feed :: "release list" where
  "example_feed =
     [single_jan, album_jan, single_jun, ep_jan, single_jan_too, live_jan, untyped_jun,
      numbered_jan]"

definition abba :: artist_hit where
  "abba = \<lparr>mbid = ''mbid-abba'', name = ''ABBA'', is_followed = False\<rparr>"

definition abc :: artist_hit where
  "abc = \<lparr>mbid = ''mbid-abc'', name = ''ABC'', is_followed = False\<rparr>"

text \<open>A session in which the results for \<open>ab\<close> are on display.\<close>

definition showing_ab :: search_section where
  "showing_ab = run mount [Change ''ab'', Elapse 300, SearchFulfilled 0 (Artists [abba, abc])]"

text \<open>The search for \<open>ab\<close> has been issued and is not yet answered.\<close>

definition searching_ab :: search_section where
  "searching_ab = run mount [Change ''ab'', Elapse 300]"


text \<open>The follow button of the first result for \<open>ab\<close> has been clicked.\<close>

definition following_abba :: search_section where
  "following_abba = run showing_ab [ClickFollow abba]"

section \<open>Properties of the release grouping\<close>

lemma first_appearance_snoc:
  "first_appearance (xs @ [x]) =
     (if x \<in> set xs then first_appearance xs else first_appearance xs @ [x])"
  by (simp add: first_appearance_def)

lemma set_first_appearance: "set (first_appearance xs) = set xs"
  by (simp add: first_appearance_def)

lemma distinct_first_appearance: "distinct (first_appearance xs)"
  by (simp add: first_appearance_def)

lemma map_of_keyed:
  "map_of (map (\<lambda>k. (k, f k)) ks) t = (if t \<in> set ks then Some (f t) else None)"
  by (induction ks) auto

lemma push_own_keyed:
  "distinct ks \<Longrightarrow>
   push_own t r (map (\<lambda>k. (k, f k)) ks) = map (\<lambda>k. (k, if k = t then f k @ [r] else f k)) ks"
  by (induction ks) auto

lemma push_own_append:
  "t \<notin> fst ` set g \<Longrightarrow> push_own t r (g @ [(t, rs)]) = g @ [(t, rs @ [r])]"
  by (induction g) auto

lemma push_release_grouped_of:
  assumes "release_type_or_other r \<notin> set object_prototype_keys"
  shows "push_release (grouped_of ps) r = Inr (grouped_of (ps @ [r]))"
proof (cases "release_type_or_other r \<in> set (map release_type_or_other ps)")
  case True
  then have "release_type_or_other r \<in> release_type_or_other ` set ps" by simp
  then show ?thesis
    by (simp add: push_release_def grouped_of_def truthy_get_def map_of_keyed
      set_first_appearance first_appearance_snoc push_own_keyed distinct_first_appearance)
next
  case False
  define t where "t = release_type_or_other r"
  have notin: "t \<notin> release_type_or_other ` set ps"
    using False by (simp add: t_def)
  have fresh: "t \<notin> fst ` set (grouped_of ps)"
    using notin by (auto simp: grouped_of_def set_first_appearance)
  have nf: "filter (\<lambda>x. release_type_or_other x = t) ps = []"
    unfolding filter_empty_conv using notin by (metis imageI)
  have same: "map (\<lambda>k. (k, filter (\<lambda>x. release_type_or_other x = k) (ps @ [r])))
                  (first_appearance (map release_type_or_other ps)) = grouped_of ps"
    unfolding grouped_of_def using notin
    by (intro map_cong) (auto simp: set_first_appearance t_def)
  have none: "map_of (grouped_of ps) t = None"
    using fresh by (simp add: map_of_eq_None_iff)
  have falsy: "\<not> truthy_get (grouped_of ps) t"
    using assms none by (simp add: truthy_get_def t_def)
  have got: "map_of (grouped_of ps @ [(t, [])]) t = Some []"
    using none by (simp add: map_add_def)
  have pushed: "push_own t r (grouped_of ps @ [(t, [])]) = grouped_of ps @ [(t, [r])]"
    using push_own_append [OF fresh, of r "[]"] by simp
  have new: "grouped_of (ps @ [r]) = grouped_of ps @ [(t, [r])]"
    using notin same nf by (simp add: grouped_of_def [of "ps @ [r]"] first_appearance_snoc t_def)
  show ?thesis
    unfolding push_release_def Let_def t_def [symmetric]
    by (simp only: falsy got pushed new not_False_eq_True if_True option.case)
qed

lemma group_forEach_grouped_of:
  "\<forall>r \<in> set rs. release_type_or_other r \<notin> set object_prototype_keys \<Longrightarrow>
   group_forEach (grouped_of ps) rs = Inr (grouped_of (ps @ rs))"
proof (induction rs arbitrary: ps)
  case Nil
  show ?case by simp
next
  case (Cons r rs)
  have "group_forEach (grouped_of ps) (r # rs) = group_forEach (grouped_of (ps @ [r])) rs"
    using Cons.prems by (simp add: push_release_grouped_of)
  also have "\<dots> = Inr (grouped_of ((ps @ [r]) @ rs))"
    using Cons.prems by (intro Cons.IH) simp
  finally show ?case by simp
qed

lemma grouped_of_Nil: "grouped_of [] = []"
  by (simp add: grouped_of_def first_appearance_def)

lemma group_forEach_start:
  "\<forall>r \<in> set rs. release_type_or_other r \<notin> set object_prototype_keys \<Longrightarrow>
   group_forEach [] rs = Inr (grouped_of rs)"
  using group_forEach_grouped_of [of rs "[]"] by (simp add: grouped_of_Nil)

lemma push_release_inherited:
  assumes "release_type_or_other r \<in> set object_prototype_keys"
    and "\<forall>p \<in> set ps. release_type_or_other p \<notin> set object_prototype_keys"
  shows "push_release (grouped_of ps) r = Inl TypeError"
proof -
  have "release_type_or_other r \<notin> release_type_or_other ` set ps"
    using assms by auto
  then have "map_of (grouped_of ps) (release_type_or_other r) = None"
    by (simp add: grouped_of_def map_of_keyed set_first_appearance)
  then show ?thesis
    using assms(1) by (simp add: push_release_def truthy_get_def)
qed

lemma group_forEach_inherited:
  "\<exists>r \<in> set rs. release_type_or_other r \<in> set object_prototype_keys \<Longrightarrow>
   \<forall>p \<in> set ps. release_type_or_other p \<notin> set object_prototype_keys \<Longrightarrow>
   group_forEach (grouped_of ps) rs = Inl TypeError"
proof (induction rs arbitrary: ps)
  case Nil
  then show ?case by simp
next
  case (Cons r rs)
  show ?case
  proof (cases "release_type_or_other r \<in> set object_prototype_keys")
    case True
    then show ?thesis
      using Cons.prems(2) by (simp add: push_release_inherited)
  next
    case False
    then have later: "\<exists>x \<in> set rs. release_type_or_other x \<in> set object_prototype_keys"
      using Cons.prems(1) by auto
    have "group_forEach (grouped_of ps) (r # rs) = group_forEach (grouped_of (ps @ [r])) rs"
      using False by (simp add: push_release_grouped_of)
    also have "\<dots> = Inl TypeError"
      using later Cons.prems(2) False by (intro Cons.IH) auto
    finally show ?thesis .
  qed
qed

lemma typeOrder_not_inherited: "t \<in> set typeOrder \<Longrightarrow> t \<notin> set object_prototype_keys"
  by (auto simp: typeOrder_def object_prototype_keys_def)

lemma releases_by_type_eq:
  assumes "\<forall>r \<in> set rs. release_type_or_other r \<notin> set object_prototype_keys"
  shows "releases_by_type gt rs =
    Inr (map (\<lambda>t. (t, array_sort (compare_dates gt) (filter (\<lambda>r. release_type_or_other r = t) rs)))
          (filter (\<lambda>t. t \<in> release_type_or_other ` set rs) typeOrder
           @ filter (\<lambda>t. t \<notin> set typeOrder)
               (sort_key numeric_value
                  (filter is_array_index (first_appearance (map release_type_or_other rs)))
                @ filter (\<lambda>k. \<not> is_array_index k)
                    (first_appearance (map release_type_or_other rs)))))"
proof -
  define F where "F = (\<lambda>t. array_sort (compare_dates gt) (filter (\<lambda>r. release_type_or_other r = t) rs))"
  define fa where "fa = first_appearance (map release_type_or_other rs)"
  define g where "g = map (\<lambda>t. (t, F t)) fa"
  have grp: "groupReleasesByType gt rs = Inr g"
    using group_forEach_start [OF assms]
    by (simp add: groupReleasesByType_def grouped_of_def g_def F_def fa_def comp_def)
  have keys: "map fst g = fa" by (simp add: g_def comp_def)
  have look: "map_of g t = (if t \<in> release_type_or_other ` set rs then Some (F t) else None)" for t
    by (simp add: g_def map_of_keyed fa_def set_first_appearance)
  have truthy: "filter (truthy_get g) typeOrder = filter (\<lambda>t. t \<in> release_type_or_other ` set rs) typeOrder"
    by (rule filter_cong) (auto simp: truthy_get_def look typeOrder_not_inherited)
  have st: "sortedTypes g = filter (\<lambda>t. t \<in> release_type_or_other ` set rs) typeOrder
           @ filter (\<lambda>t. t \<notin> set typeOrder)
               (sort_key numeric_value (filter is_array_index fa) @ filter (\<lambda>k. \<not> is_array_index k) fa)"
    by (simp add: sortedTypes_def truthy object_keys_def keys)
  have sub: "set (sortedTypes g) \<subseteq> release_type_or_other ` set rs"
    unfolding st by (auto simp: fa_def set_first_appearance)
  have "map (\<lambda>t. (t, bucket g t)) (sortedTypes g) = map (\<lambda>t. (t, F t)) (sortedTypes g)"
    using sub by (intro map_cong) (auto simp: bucket_def look)
  then show ?thesis
    by (simp add: releases_by_type_def grp st F_def fa_def)
qed

lemma releases_by_type_raises:
  assumes "\<exists>r \<in> set rs. release_type_or_other r \<in> set object_prototype_keys"
  shows "releases_by_type gt rs = Inl TypeError"
  using group_forEach_inherited [OF assms, of "[]"]
  by (simp add: releases_by_type_def groupReleasesByType_def grouped_of_Nil)

subsection \<open>The date sort\<close>

lemma extend_run_append: "extend_run cmp d p cs = (r, rest) \<Longrightarrow> r @ rest = cs"
  by (induction cmp d p cs arbitrary: r rest rule: extend_run.induct)
     (auto simp: Let_def split: if_splits prod.splits)

lemma mset_insert_at: "mset (insert_at k x xs) = add_mset x (mset xs)"
proof -
  have "mset (take k xs) + mset (drop k xs) = mset xs"
    by (metis append_take_drop_id mset_append)
  then show ?thesis by (simp add: insert_at_def)
qed

lemma mset_binary_insertion_sort:
  "mset (binary_insertion_sort cmp work rest) = mset work + mset rest"
  by (induction rest arbitrary: work) (simp_all add: mset_insert_at)

lemma mset_count_and_make_run:
  "count_and_make_run cmp a0 a1 rest = (rn, rest') \<Longrightarrow>
   mset rn + mset rest' = mset (a0 # a1 # rest)"
  by (auto simp: count_and_make_run_def Let_def split: prod.splits if_splits
      dest!: extend_run_append)

lemma mset_array_sort: "mset (array_sort cmp xs) = mset xs"
proof (cases xs)
  case Nil
  then show ?thesis by (simp add: array_sort_def)
next
  case (Cons a0 ys)
  show ?thesis
  proof (cases ys)
    case Nil
    then show ?thesis by (simp add: array_sort_def Cons)
  next
    case (Cons a1 rest)
    obtain rn rest' where r: "count_and_make_run cmp a0 a1 rest = (rn, rest')"
      by (cases "count_and_make_run cmp a0 a1 rest")
    show ?thesis
      using mset_count_and_make_run [OF r]
      by (simp add: array_sort_def \<open>xs = a0 # ys\<close> Cons r mset_binary_insertion_sort)
  qed
qed

text \<open>On a consistent comparator the sort is the stable sort by the key it orders by.\<close>

lemma extend_run_ascending:
  assumes "extend_run cmp False p cs = (r, rest)"
    and "\<forall>x \<in> set (p # cs). \<forall>y \<in> set (p # cs). (cmp x y < 0) = (f x < f y)"
  shows "sorted (map f (p # r))"
  using assms
proof (induction cs arbitrary: p r rest)
  case Nil
  then show ?case by simp
next
  case (Cons c cs)
  show ?case
  proof (cases "cmp c p < 0")
    case True
    with Cons.prems(1) show ?thesis by simp
  next
    case False
    obtain r' rest'' where e: "extend_run cmp False c cs = (r', rest'')"
      by (cases "extend_run cmp False c cs")
    with False Cons.prems(1) have r: "r = c # r'" by simp
    have "sorted (map f (c # r'))"
      using e Cons.prems(2) by (intro Cons.IH [of c r' rest'']) auto
    moreover have "f p \<le> f c"
      using False Cons.prems(2) by (simp add: not_less)
    ultimately show ?thesis by (fastforce simp: r)
  qed
qed

lemma extend_run_descending:
  assumes "extend_run cmp True p cs = (r, rest)"
    and "\<forall>x \<in> set (p # cs). \<forall>y \<in> set (p # cs). (cmp x y < 0) = (f x < f y)"
  shows "sorted_wrt (\<lambda>a b. (f b :: 'b :: linorder) < f a) (p # r)"
  using assms
proof (induction cs arbitrary: p r rest)
  case Nil
  then show ?case by simp
next
  case (Cons c cs)
  show ?case
  proof (cases "0 \<le> cmp c p")
    case True
    with Cons.prems(1) show ?thesis by simp
  next
    case False
    obtain r' rest'' where e: "extend_run cmp True c cs = (r', rest'')"
      by (cases "extend_run cmp True c cs")
    with False Cons.prems(1) have r: "r = c # r'" by simp
    have IH: "sorted_wrt (\<lambda>a b. f b < f a) (c # r')"
      using e Cons.prems(2) by (intro Cons.IH [of c r' rest'']) auto
    have "f c < f p"
      using False Cons.prems(2) by simp
    with IH show ?thesis by (fastforce simp: r)
  qed
qed


lemma binary_search_spec:
  assumes "sorted (map f work)"
    and "\<forall>y \<in> set work. (cmp x y < 0) = (f x < f y)"
    and "left \<le> right" "right \<le> length work"
    and "\<forall>i < left. f (work ! i) \<le> f x"
    and "\<forall>i. right \<le> i \<and> i < length work \<longrightarrow> f x < f (work ! i)"
  shows "binary_search cmp x work left right \<le> length work
       \<and> (\<forall>i < binary_search cmp x work left right. f (work ! i) \<le> f x)
       \<and> (\<forall>i. binary_search cmp x work left right \<le> i \<and> i < length work \<longrightarrow> f x < f (work ! i))"
  using assms
proof (induction cmp x work left right rule: binary_search.induct)
  case (1 cmp pivot work left right)
  show ?case
  proof (cases "left < right")
    case False
    with "1.prems" have "left = right" by simp
    with "1.prems" False show ?thesis
      by (subst (1 2 3) binary_search.simps) simp
  next
    case True
    define mid where "mid = left + (right - left) div 2"
    have mid: "left \<le> mid" "mid < right" using True by (auto simp: mid_def)
    then have midlen: "mid < length work" using "1.prems"(4) by simp
    have mono: "f (work ! i) \<le> f (work ! j)" if "i \<le> j" "j < length work" for i j
      using "1.prems"(1) that by (simp add: sorted_iff_nth_mono)
    show ?thesis
    proof (cases "cmp pivot (work ! mid) < 0")
      case lt: True
      have less: "f pivot < f (work ! mid)"
        using lt "1.prems"(2) midlen by (metis nth_mem)
      have up: "\<forall>i. mid \<le> i \<and> i < length work \<longrightarrow> f pivot < f (work ! i)"
        using less mono by (meson less_le_trans)
      have eq: "binary_search cmp pivot work left right = binary_search cmp pivot work left mid"
        by (subst binary_search.simps) (simp add: True lt mid_def [symmetric] Let_def)
      show ?thesis
        unfolding eq
        using "1.prems" mid midlen up
        by (intro "1.IH"(1) [OF True mid_def lt]) auto
    next
      case ge: False
      have geq: "f (work ! mid) \<le> f pivot"
        using ge "1.prems"(2) midlen by (metis nth_mem not_less)
      have low: "\<forall>i < mid + 1. f (work ! i) \<le> f pivot"
        using geq mono midlen by (metis Suc_eq_plus1 less_Suc_eq_le order_trans)
      have eq: "binary_search cmp pivot work left right = binary_search cmp pivot work (mid + 1) right"
        by (subst binary_search.simps) (simp add: True ge mid_def [symmetric] Let_def)
      show ?thesis
        unfolding eq
        using "1.prems" mid midlen low
        by (intro "1.IH"(2) [OF True mid_def ge]) auto
    qed
  qed
qed


lemma insert_at_sorted_stable:
  assumes srt: "sorted (map f work)"
    and cons: "\<forall>y \<in> set work. (cmp x y < 0) = (f x < f y)"
  shows "sorted (map f (insert_at (binary_search cmp x work 0 (length work)) x work))
       \<and> (\<forall>v. filter (\<lambda>y. f y = v) (insert_at (binary_search cmp x work 0 (length work)) x work)
              = filter (\<lambda>y. f y = v) (work @ [x]))"
proof -
  define k where "k = binary_search cmp x work 0 (length work)"
  have spec: "k \<le> length work \<and> (\<forall>i < k. f (work ! i) \<le> f x)
       \<and> (\<forall>i. k \<le> i \<and> i < length work \<longrightarrow> f x < f (work ! i))"
    unfolding k_def
    using srt cons
    by (intro binary_search_spec [where f = f and cmp = cmp and x = x and work = work]) auto
  have before: "f y \<le> f x" if "y \<in> set (take k work)" for y
  proof -
    from that obtain i where "i < length (take k work)" "y = take k work ! i"
      by (auto simp: in_set_conv_nth)
    then show ?thesis using spec by simp
  qed
  have after: "f x < f y" if "y \<in> set (drop k work)" for y
  proof -
    from that obtain i where "i < length (drop k work)" "y = drop k work ! i"
      by (auto simp: in_set_conv_nth)
    then show ?thesis using spec by simp
  qed
  have "sorted (take k (map f work))" "sorted (drop k (map f work))"
    using srt by (simp_all add: sorted_wrt_take sorted_wrt_drop)
  then have parts: "sorted (map f (take k work))" "sorted (map f (drop k work))"
    by (simp_all add: take_map drop_map)
  have sorted: "sorted (map f (insert_at k x work))"
    using parts before after
    by (fastforce simp: insert_at_def sorted_append)
  have stable: "filter (\<lambda>y. f y = v) (insert_at k x work) = filter (\<lambda>y. f y = v) (work @ [x])" for v
  proof (cases "f x = v")
    case True
    have "filter (\<lambda>y. f y = v) (drop k work) = []"
      unfolding filter_empty_conv using after True by (metis less_irrefl)
    moreover have "filter (\<lambda>y. f y = v) work
        = filter (\<lambda>y. f y = v) (take k work) @ filter (\<lambda>y. f y = v) (drop k work)"
      by (metis append_take_drop_id filter_append)
    ultimately show ?thesis using True by (simp add: insert_at_def)
  next
    case False
    have "filter (\<lambda>y. f y = v) work
        = filter (\<lambda>y. f y = v) (take k work) @ filter (\<lambda>y. f y = v) (drop k work)"
      by (metis append_take_drop_id filter_append)
    then show ?thesis using False by (simp add: insert_at_def)
  qed
  show ?thesis using sorted stable unfolding k_def by blast
qed

lemma set_insert_at: "set (insert_at k x xs) = insert x (set xs)"
  using mset_insert_at [of k x xs] by (metis set_mset_add_mset_insert set_mset_mset)

lemma binary_insertion_sort_sorted_stable:
  assumes "sorted (map f work)"
    and "\<forall>x \<in> set (work @ rest). \<forall>y \<in> set (work @ rest). (cmp x y < 0) = (f x < f y)"
  shows "sorted (map f (binary_insertion_sort cmp work rest))
       \<and> (\<forall>v. filter (\<lambda>y. f y = v) (binary_insertion_sort cmp work rest)
              = filter (\<lambda>y. f y = v) (work @ rest))"
  using assms
proof (induction rest arbitrary: work)
  case Nil
  then show ?case by simp
next
  case (Cons x rest)
  define work' where "work' = insert_at (binary_search cmp x work 0 (length work)) x work"
  have step: "sorted (map f work')
       \<and> (\<forall>v. filter (\<lambda>y. f y = v) work' = filter (\<lambda>y. f y = v) (work @ [x]))"
    unfolding work'_def using Cons.prems by (intro insert_at_sorted_stable) auto
  have "sorted (map f (binary_insertion_sort cmp work' rest))
       \<and> (\<forall>v. filter (\<lambda>y. f y = v) (binary_insertion_sort cmp work' rest)
              = filter (\<lambda>y. f y = v) (work' @ rest))"
    using step Cons.prems(2) by (intro Cons.IH) (auto simp: work'_def set_insert_at)
  then show ?case
    using step by (simp add: work'_def [symmetric])
qed

lemma filter_rev_descending:
  fixes f :: "'a \<Rightarrow> 'b :: linorder"
  assumes "sorted_wrt (\<lambda>a b. f b < f a) xs"
  shows "filter (\<lambda>y. f y = v) (rev xs) = filter (\<lambda>y. f y = v) xs"
proof -
  have "length (filter (\<lambda>y. f y = v) xs) \<le> 1"
    using assms
  proof (induction xs)
    case Nil
    then show ?case by simp
  next
    case (Cons x xs)
    show ?case
    proof (cases "f x = v")
      case True
      then have "filter (\<lambda>y. f y = v) xs = []"
        using Cons.prems by (auto simp: filter_empty_conv)
      with True show ?thesis by simp
    next
      case False
      with Cons show ?thesis by simp
    qed
  qed
  then have "rev (filter (\<lambda>y. f y = v) xs) = filter (\<lambda>y. f y = v) xs"
    by (cases "filter (\<lambda>y. f y = v) xs") (auto simp: Suc_le_eq split: if_splits)
  then show ?thesis by (simp add: rev_filter)
qed

lemma count_and_make_run_sorted_stable:
  fixes f :: "'a \<Rightarrow> 'b :: linorder"
  assumes rn: "count_and_make_run cmp a0 a1 rest = (rn, rest')"
    and cons: "\<forall>x \<in> set (a0 # a1 # rest). \<forall>y \<in> set (a0 # a1 # rest). (cmp x y < 0) = (f x < f y)"
  shows "sorted (map f rn)
       \<and> (\<forall>v. filter (\<lambda>y. f y = v) (rn @ rest') = filter (\<lambda>y. f y = v) (a0 # a1 # rest))"
proof -
  obtain r where e: "extend_run cmp (cmp a1 a0 < 0) a1 rest = (r, rest')"
    and runeq: "rn = (if cmp a1 a0 < 0 then rev (a0 # a1 # r) else a0 # a1 # r)"
    using rn by (auto simp: count_and_make_run_def Let_def split: prod.splits)
  have app: "r @ rest' = rest" using e by (rule extend_run_append)
  have cons1: "\<forall>x \<in> set (a1 # rest). \<forall>y \<in> set (a1 # rest). (cmp x y < 0) = (f x < f y)"
    using cons by simp
  show ?thesis
  proof (cases "cmp a1 a0 < 0")
    case False
    have "sorted (map f (a1 # r))"
      using e False cons1 by (intro extend_run_ascending [of cmp a1 rest r rest']) simp_all
    moreover have "f a0 \<le> f a1" using False cons by (simp add: not_less)
    ultimately have "sorted (map f (a0 # a1 # r))" by fastforce
    then show ?thesis using False runeq app by auto
  next
    case True
    have d: "sorted_wrt (\<lambda>a b. f b < f a) (a1 # r)"
      using e True cons1 by (intro extend_run_descending [of cmp a1 rest r rest']) simp_all
    moreover have "f a1 < f a0" using True cons by simp
    ultimately have desc: "sorted_wrt (\<lambda>a b. f b < f a) (a0 # a1 # r)" by fastforce
    then have "sorted_wrt (\<lambda>a b. f a < f b) (rev (a0 # a1 # r))"
      by (simp only: sorted_wrt_rev)
    then have "sorted_wrt (\<lambda>a b. f a \<le> f b) (rev (a0 # a1 # r))"
      by (rule sorted_wrt_mono_rel [rotated]) simp
    then have s: "sorted (map f rn)"
      using True runeq by (simp only: sorted_map if_True)
    have "filter (\<lambda>y. f y = v) rn = filter (\<lambda>y. f y = v) (a0 # a1 # r)" for v
      using filter_rev_descending [OF desc] True runeq by simp
    then have "filter (\<lambda>y. f y = v) (rn @ rest') = filter (\<lambda>y. f y = v) (a0 # a1 # rest)" for v
      using app by (metis append_Cons filter_append)
    with s show ?thesis by blast
  qed
qed

lemma array_sort_consistent:
  fixes f :: "'a \<Rightarrow> 'b :: linorder"
  assumes cons: "\<forall>x \<in> set xs. \<forall>y \<in> set xs. (cmp x y < 0) = (f x < f y)"
  shows "array_sort cmp xs = sort_key f xs"
proof (cases xs)
  case Nil
  then show ?thesis by (simp add: array_sort_def)
next
  case (Cons a0 ys)
  show ?thesis
  proof (cases ys)
    case Nil
    then show ?thesis by (simp add: array_sort_def Cons)
  next
    case c2: (Cons a1 rest)
    obtain rn rest' where r: "count_and_make_run cmp a0 a1 rest = (rn, rest')"
      by (cases "count_and_make_run cmp a0 a1 rest")
    have xs: "xs = a0 # a1 # rest" by (simp add: Cons c2)
    have res: "array_sort cmp xs = binary_insertion_sort cmp rn rest'"
      by (simp add: array_sort_def xs r)
    have runp: "sorted (map f rn)
       \<and> (\<forall>v. filter (\<lambda>y. f y = v) (rn @ rest') = filter (\<lambda>y. f y = v) xs)"
      unfolding xs using r cons [unfolded xs] by (rule count_and_make_run_sorted_stable)
    have "mset rn + mset rest' = mset xs"
      unfolding xs by (rule mset_count_and_make_run [OF r])
    then have "set (rn @ rest') = set xs"
      by (metis mset_append set_mset_mset)
    then have cons': "\<forall>x \<in> set (rn @ rest'). \<forall>y \<in> set (rn @ rest'). (cmp x y < 0) = (f x < f y)"
      using cons by simp
    have fin: "sorted (map f (binary_insertion_sort cmp rn rest'))
       \<and> (\<forall>v. filter (\<lambda>y. f y = v) (binary_insertion_sort cmp rn rest')
              = filter (\<lambda>y. f y = v) (rn @ rest'))"
      using runp cons' by (intro binary_insertion_sort_sorted_stable) simp_all
    have "sort_key f xs = array_sort cmp xs"
    proof (rule properties_for_sort_key)
      show "mset (array_sort cmp xs) = mset xs" by (rule mset_array_sort)
      show "sorted (map f (array_sort cmp xs))" using fin by (simp add: res)
      fix k
      have "filter (\<lambda>y. f y = f k) (array_sort cmp xs) = filter (\<lambda>y. f y = f k) xs"
        using fin runp by (simp add: res)
      then show "filter (\<lambda>x. f k = f x) (array_sort cmp xs) = filter (\<lambda>x. f k = f x) xs"
        by (simp add: eq_commute [of "f k"])
    qed
    then show ?thesis by simp
  qed
qed

lemma array_sort_sort_key:
  assumes "\<forall>r \<in> set rs. gt (release_date r) \<noteq> None"
  shows "array_sort (compare_dates gt) rs = sort_key (newest_first_key gt) rs"
proof (rule array_sort_consistent)
  show "\<forall>x \<in> set rs. \<forall>y \<in> set rs.
          (compare_dates gt x y < 0) = (newest_first_key gt x < newest_first_key gt y)"
  proof (intro ballI)
    fix x y
    assume "x \<in> set rs" "y \<in> set rs"
    with assms have "gt (release_date x) \<noteq> None" "gt (release_date y) \<noteq> None"
      by simp_all
    then obtain tx ty where "gt (release_date x) = Some tx" "gt (release_date y) = Some ty"
      by blast
    then show "(compare_dates gt x y < 0) = (newest_first_key gt x < newest_first_key gt y)"
      by (simp add: compare_dates_def newest_first_key_def)
  qed
qed

lemma array_sort_newest_first:
  assumes "\<forall>r \<in> set rs. gt (release_date r) \<noteq> None"
  shows "sorted_wrt (not_older gt) (array_sort (compare_dates gt) rs)"
proof -
  have "sorted (map (newest_first_key gt) (sort_key (newest_first_key gt) rs))"
    by (rule sorted_sort_key)
  then have "sorted_wrt (\<lambda>x y. newest_first_key gt x \<le> newest_first_key gt y) (sort_key (newest_first_key gt) rs)"
    by (simp add: sorted_map)
  then have "sorted_wrt (not_older gt) (sort_key (newest_first_key gt) rs)"
  proof (rule sorted_wrt_mono_rel [rotated])
    fix x y
    assume "x \<in> set (sort_key (newest_first_key gt) rs)" "y \<in> set (sort_key (newest_first_key gt) rs)"
      and "newest_first_key gt x \<le> newest_first_key gt y"
    then show "not_older gt x y"
      using assms by (auto simp: not_older_def newest_first_key_def split: option.splits)
  qed
  then show ?thesis by (simp add: array_sort_sort_key [OF assms])
qed

lemma array_sort_stable:
  assumes "\<forall>r \<in> set rs. gt (release_date r) \<noteq> None"
  shows "filter (\<lambda>r. gt (release_date r) = Some k) (array_sort (compare_dates gt) rs)
       = filter (\<lambda>r. gt (release_date r) = Some k) rs"
proof -
  have key: "gt (release_date r) = Some k \<longleftrightarrow> newest_first_key gt r = - k" if "r \<in> set rs" for r
    using assms that by (auto simp: newest_first_key_def split: option.splits)
  have "filter (\<lambda>r. gt (release_date r) = Some k) (sort_key (newest_first_key gt) rs)
      = filter (\<lambda>r. newest_first_key gt r = - k) (sort_key (newest_first_key gt) rs)"
    by (rule filter_cong) (simp_all add: key)
  also have "\<dots> = filter (\<lambda>r. newest_first_key gt r = - k) rs"
    by (rule sort_key_stable)
  also have "\<dots> = filter (\<lambda>r. gt (release_date r) = Some k) rs"
    by (rule filter_cong) (simp_all add: key)
  finally show ?thesis by (simp add: array_sort_sort_key [OF assms])
qed

subsection \<open>Evaluating the examples\<close>

lemmas example_releases =
  single_jan_def album_jan_def single_jun_def ep_jan_def single_jan_too_def live_jan_def
  untyped_jun_def numbered_jan_def album_undated_def album_jun_def album_jun_too_def

subsection \<open>Bucket order\<close>

text \<open>
  Claim C4, as amended. For every list of releases none of whose types names a property
  inherited by the grouping object, the sections are: the types Album, EP, Single,
  Compilation, Soundtrack that occur, in this order, then Other if it occurs, then the
  remaining types that are array-index numerals in ascending numeric order, then the
  other remaining types in order of first appearance in the input. Every section is
  non-empty and holds exactly the releases of its type, where a missing or an empty
  type counts as Other.
\<close>

theorem bucket_order:
  assumes "\<forall>r \<in> set rs. release_type_or_other r \<notin> set object_prototype_keys"
    and "ts = map release_type_or_other rs"
    and "others = filter (\<lambda>t. t \<notin> set [''Album'', ''EP'', ''Single'', ''Compilation'', ''Soundtrack'', ''Other''])
                    (first_appearance ts)"
  shows "(\<exists>bs. releases_by_type getTime rs = Inr bs
      \<and> map fst bs =
          filter (\<lambda>t. t \<in> set ts) [''Album'', ''EP'', ''Single'', ''Compilation'', ''Soundtrack'']
          @ filter (\<lambda>t. t \<in> set ts) [''Other'']
          @ sort_key numeric_value (filter is_array_index others)
          @ filter (\<lambda>t. \<not> is_array_index t) others
      \<and> (\<forall>(t, b) \<in> set bs.
            b \<noteq> [] \<and> mset b = mset (filter (\<lambda>r. release_type_or_other r = t) rs)))
    \<and> release_type_or_other (r\<lparr>release_type := None\<rparr>) = ''Other''
    \<and> release_type_or_other (r\<lparr>release_type := Some []\<rparr>) = ''Other''
    \<and> release_type_or_other (r\<lparr>release_type := Some (c # cs)\<rparr>) = c # cs"
proof -
  define F where "F = (\<lambda>t. array_sort (compare_dates getTime) (filter (\<lambda>r. release_type_or_other r = t) rs))"
  define fa where "fa = first_appearance ts"
  define L where "L = filter (\<lambda>t. t \<in> release_type_or_other ` set rs) typeOrder
           @ filter (\<lambda>t. t \<notin> set typeOrder)
               (sort_key numeric_value (filter is_array_index fa) @ filter (\<lambda>k. \<not> is_array_index k) fa)"
  have eq: "releases_by_type getTime rs = Inr (map (\<lambda>t. (t, F t)) L)"
    using releases_by_type_eq [OF assms(1), of getTime] by (simp add: F_def L_def fa_def assms(2))
  have sets: "set ts = release_type_or_other ` set rs" by (simp add: assms(2))
  have others: "others = filter (\<lambda>t. t \<notin> set typeOrder) fa"
    by (simp add: assms(3) fa_def typeOrder_def)
  have idx: "filter (\<lambda>t. t \<notin> set typeOrder) (sort_key numeric_value (filter is_array_index fa))
           = sort_key numeric_value (filter is_array_index others)"
    by (simp add: filter_sort others conj_commute)
  have nidx: "filter (\<lambda>t. t \<notin> set typeOrder) (filter (\<lambda>k. \<not> is_array_index k) fa)
           = filter (\<lambda>t. \<not> is_array_index t) others"
    by (simp add: others conj_commute)
  have order: "L = filter (\<lambda>t. t \<in> set ts) [''Album'', ''EP'', ''Single'', ''Compilation'', ''Soundtrack'']
          @ filter (\<lambda>t. t \<in> set ts) [''Other'']
          @ sort_key numeric_value (filter is_array_index others)
          @ filter (\<lambda>t. \<not> is_array_index t) others"
    unfolding L_def filter_append idx nidx by (simp add: sets typeOrder_def)
  have sub: "set L \<subseteq> release_type_or_other ` set rs"
    by (auto simp: L_def fa_def set_first_appearance sets)
  have content: "b \<noteq> [] \<and> mset b = mset (filter (\<lambda>r. release_type_or_other r = t) rs)"
    if "(t, b) \<in> set (map (\<lambda>t. (t, F t)) L)" for t b
  proof -
    from that have b: "b = F t" and t: "t \<in> set L" by auto
    from t sub obtain x where "x \<in> set rs" "release_type_or_other x = t" by auto
    then have "filter (\<lambda>r. release_type_or_other r = t) rs \<noteq> []"
      by (auto simp: filter_empty_conv)
    moreover have "mset b = mset (filter (\<lambda>r. release_type_or_other r = t) rs)"
      by (simp add: b F_def mset_array_sort)
    ultimately show ?thesis by (metis mset_zero_iff)
  qed
  have "map fst (map (\<lambda>t. (t, F t)) L) = L" by (simp add: comp_def)
  with eq order content
  have "\<exists>bs. releases_by_type getTime rs = Inr bs
      \<and> map fst bs =
          filter (\<lambda>t. t \<in> set ts) [''Album'', ''EP'', ''Single'', ''Compilation'', ''Soundtrack'']
          @ filter (\<lambda>t. t \<in> set ts) [''Other'']
          @ sort_key numeric_value (filter is_array_index others)
          @ filter (\<lambda>t. \<not> is_array_index t) others
      \<and> (\<forall>(t, b) \<in> set bs.
            b \<noteq> [] \<and> mset b = mset (filter (\<lambda>r. release_type_or_other r = t) rs))"
    by (intro exI [of _ "map (\<lambda>t. (t, F t)) L"]) (simp only: simp_thms, blast)
  then show ?thesis
    by (simp add: release_type_or_other_def)
qed

text \<open>
  Witness for C4 on the example feed, whose types are Single, Album, Single, EP, Single,
  Live, missing, 7.
\<close>

theorem bucket_order_witness:
  "\<exists>bs. releases_by_type example_getTime example_feed = Inr bs
      \<and> map fst bs = [''Album'', ''EP'', ''Single'', ''Other'', ''7'', ''Live'']"
proof -
  have h: "\<forall>r \<in> set example_feed. release_type_or_other r \<notin> set object_prototype_keys"
    by (simp add: example_feed_def example_releases release_type_or_other_def object_prototype_keys_def)
  have ts: "map release_type_or_other example_feed
      = [''Single'', ''Album'', ''Single'', ''EP'', ''Single'', ''Live'', ''Other'', ''7'']"
    by (simp add: example_feed_def example_releases release_type_or_other_def)
  from bucket_order [OF h ts [symmetric] refl, of example_getTime]
  obtain bs where run: "releases_by_type example_getTime example_feed = Inr bs"
    and order: "map fst bs =
          filter (\<lambda>t. t \<in> set [''Single'', ''Album'', ''Single'', ''EP'', ''Single'', ''Live'', ''Other'', ''7''])
             [''Album'', ''EP'', ''Single'', ''Compilation'', ''Soundtrack'']
          @ filter (\<lambda>t. t \<in> set [''Single'', ''Album'', ''Single'', ''EP'', ''Single'', ''Live'', ''Other'', ''7'']) [''Other'']
          @ sort_key numeric_value (filter is_array_index
              (filter (\<lambda>t. t \<notin> set [''Album'', ''EP'', ''Single'', ''Compilation'', ''Soundtrack'', ''Other''])
                    (first_appearance [''Single'', ''Album'', ''Single'', ''EP'', ''Single'', ''Live'', ''Other'', ''7''])))
          @ filter (\<lambda>t. \<not> is_array_index t)
              (filter (\<lambda>t. t \<notin> set [''Album'', ''EP'', ''Single'', ''Compilation'', ''Soundtrack'', ''Other''])
                    (first_appearance [''Single'', ''Album'', ''Single'', ''EP'', ''Single'', ''Live'', ''Other'', ''7'']))"
    by blast
  have shown: "map fst bs = [''Album'', ''EP'', ''Single'', ''Other'', ''7'', ''Live'']"
    unfolding order
    by (simp add: first_appearance_def is_array_index_def is_digit_def numeric_value_def digit_value_def)
  show ?thesis
    by (rule exI [of _ bs]) (simp only: run shown simp_thms)
qed

text \<open>
  Counterexample to C4 as stated: the type \<open>Live\<close> appears before the type \<open>7\<close> in
  the input, yet the section \<open>7\<close> is rendered first, because \<open>Object.keys\<close> lists
  array-index keys before all other keys.
\<close>

theorem bucket_order_counterexample:
  "releases_by_type example_getTime [live_jan, numbered_jan]
     = Inr [(''7'', [numbered_jan]), (''Live'', [live_jan])]
   \<and> claimed_bucket_order (map release_type_or_other [live_jan, numbered_jan]) = [''Live'', ''7'']"
  by (simp add: releases_by_type_def groupReleasesByType_def push_release_def truthy_get_def
      release_type_or_other_def object_prototype_keys_def sortedTypes_def object_keys_def
      typeOrder_def bucket_def array_sort_def count_and_make_run_def binary_search.simps
      insert_at_def is_array_index_def is_digit_def numeric_value_def
      digit_value_def claimed_bucket_order_def first_appearance_def live_jan_def numbered_jan_def
      Let_def)

subsection \<open>Order inside a bucket\<close>

text \<open>
  A bucket whose releases all carry a valid date is listed newest first, and releases
  of the same date keep their input order, whatever the dates in the other buckets.
\<close>

lemma dated_bucket_newest_first_stable:
  assumes types: "\<forall>r \<in> set rs. release_type_or_other r \<notin> set object_prototype_keys"
    and out: "releases_by_type getTime rs = Inr bs"
    and mem: "(t, b) \<in> set bs"
    and dated: "\<forall>r \<in> set rs. release_type_or_other r = t \<longrightarrow> getTime (release_date r) \<noteq> None"
  shows "mset b = mset (filter (\<lambda>r. release_type_or_other r = t) rs)
       \<and> sorted_wrt (not_older getTime) b
       \<and> (\<forall>k. filter (\<lambda>r. getTime (release_date r) = Some k) b
              = filter (\<lambda>r. getTime (release_date r) = Some k)
                  (filter (\<lambda>r. release_type_or_other r = t) rs))"
proof -
  define F where
    "F = (\<lambda>t. array_sort (compare_dates getTime) (filter (\<lambda>r. release_type_or_other r = t) rs))"
  from releases_by_type_eq [OF types, of getTime]
  obtain L where eq: "releases_by_type getTime rs = Inr (map (\<lambda>t. (t, F t)) L)"
    unfolding F_def by blast
  from eq out mem have b: "b = F t" by auto
  have valid: "\<forall>r \<in> set (filter (\<lambda>r. release_type_or_other r = t) rs). getTime (release_date r) \<noteq> None"
    using dated by simp
  show ?thesis
    unfolding b F_def
    using mset_array_sort array_sort_newest_first [OF valid] array_sort_stable [OF valid]
    by blast
qed

text \<open>The sections of the example feed, whose dates are all valid.\<close>

lemma example_feed_sections:
  "releases_by_type example_getTime example_feed =
     Inr [(''Album'', [album_jan]), (''EP'', [ep_jan]),
          (''Single'', [single_jun, single_jan, single_jan_too]),
          (''Other'', [untyped_jun]), (''7'', [numbered_jan]), (''Live'', [live_jan])]"
  by (simp add: releases_by_type_def groupReleasesByType_def push_release_def truthy_get_def
      release_type_or_other_def object_prototype_keys_def sortedTypes_def object_keys_def
      typeOrder_def bucket_def array_sort_def count_and_make_run_def binary_search.simps
      insert_at_def is_array_index_def is_digit_def numeric_value_def
      digit_value_def compare_dates_def example_getTime_def example_feed_def example_releases
      Let_def)

text \<open>
  With an undated release in the array the comparator is no longer consistent. The
  run is descending (June after January), stops at the undated release and is
  reversed; the undated release stays in place; the second June release finds its
  place by binary search.
\<close>

lemma array_sort_undated_example:
  "array_sort (compare_dates example_getTime) [album_jan, album_jun, album_undated, album_jun_too]
     = [album_jun, album_jun_too, album_jan, album_undated]"
  by (simp add: array_sort_def count_and_make_run_def binary_search.simps insert_at_def
      compare_dates_def example_getTime_def example_releases)

text \<open>
  Claim C5 fails on the code. The feed holds three albums, in this order: one of
  January 2024, one whose date does not parse, one of June 2024. The comparator
  answers \<open>NaN\<close>, read as \<open>0\<close>, for both neighbouring pairs; the whole array counts
  as one non-descending run and is left as it is, so the album of January is listed
  before the more recent album of June. The comments in the code promise newest first.
\<close>

theorem undated_release_breaks_newest_first:
  "releases_by_type example_getTime [album_jan, album_undated, album_jun]
     = Inr [(''Album'', [album_jan, album_undated, album_jun])]
   \<and> example_getTime (release_date album_jan) = Some 1704067200000
   \<and> example_getTime (release_date album_undated) = None
   \<and> example_getTime (release_date album_jun) = Some 1717200000000
   \<and> \<not> not_older example_getTime album_jan album_jun"
  by (simp add: releases_by_type_def groupReleasesByType_def push_release_def truthy_get_def
      release_type_or_other_def object_prototype_keys_def sortedTypes_def object_keys_def
      typeOrder_def bucket_def array_sort_def count_and_make_run_def binary_search.simps
      insert_at_def is_array_index_def is_digit_def numeric_value_def
      digit_value_def compare_dates_def example_getTime_def album_jan_def album_undated_def
      album_jun_def not_older_def Let_def)

subsection \<open>Empty input\<close>

text \<open>
  Claim C6. Grouping the empty list of releases returns no bucket and raises nothing,
  and no section is rendered.
\<close>

theorem empty_feed_no_buckets:
  "groupReleasesByType getTime [] = Inr [] \<and> releases_by_type getTime [] = Inr []"
  by (simp add: groupReleasesByType_def releases_by_type_def sortedTypes_def object_keys_def
      truthy_get_def typeOrder_def object_prototype_keys_def)

section \<open>Properties of the artist search\<close>

lemma run_Nil: "run s [] = s"
  by (simp add: run_def)

lemma run_Cons: "run s (e # es) = run (step s e) es"
  by (simp add: run_def)


lemma typing_Nil: "typing [] = []"
  by (simp add: typing_def)

lemma typing_Cons: "typing ((d, q) # ks) = Elapse d # Change q # typing ks"
  by (simp add: typing_def)

lemmas section_defs =
  run_def mount_def setSearchQuery_def elapse_def handleSearch_def search_fulfilled_def
  search_rejected_def handleAddArtist_def add_fulfilled_def add_rejected_def

lemma showing_ab_eq:
  "showing_ab = \<lparr>searchQuery = ''ab'', searchResults = [abba, abc], isSearching = False,
      addingArtistId = None, timer = None, clock = 300, searchCalls = [(300, ''ab'', 8)],
      searchPending = [], addCalls = [], addPending = [], alerts = [], consoleErrors = 0,
      artistAdded = 0\<rparr>"
  by (simp add: showing_ab_def section_defs)

lemma searching_ab_eq:
  "searching_ab = \<lparr>searchQuery = ''ab'', searchResults = [], isSearching = True,
      addingArtistId = None, timer = None, clock = 300, searchCalls = [(300, ''ab'', 8)],
      searchPending = [0], addCalls = [], addPending = [], alerts = [], consoleErrors = 0,
      artistAdded = 0\<rparr>"
  by (simp add: searching_ab_def section_defs)


lemma following_abba_eq:
  "following_abba = \<lparr>searchQuery = ''ab'', searchResults = [abba, abc], isSearching = False,
      addingArtistId = Some ''mbid-abba'', timer = None, clock = 300,
      searchCalls = [(300, ''ab'', 8)],
      searchPending = [], addCalls = [(''ABBA'', ''mbid-abba'')], addPending = [0], alerts = [],
      consoleErrors = 0, artistAdded = 0\<rparr>"
  by (simp add: following_abba_def run_Cons run_Nil showing_ab_eq handleAddArtist_def abba_def)

lemma elapse_armed_short:
  assumes "timer s = Some (due, q)" "clock s + d < due"
  shows "elapse d s = s\<lparr>clock := clock s + d\<rparr>"
  using assms by (simp add: elapse_def)

lemma typing_keeps_calls:
  assumes "searchQuery s = q" "timer s = Some (clock s + 300, q)"
    and "\<forall>(d, v) \<in> set ks. d < 300"
    and "distinct_adj (q # map snd ks)"
  shows "(\<forall>n. searchCalls (run s (take n (typing ks))) = searchCalls s)
       \<and> searchQuery (run s (typing ks)) = last (q # map snd ks)
       \<and> timer (run s (typing ks)) = Some (clock (run s (typing ks)) + 300, last (q # map snd ks))"
  using assms
proof (induction ks arbitrary: s q)
  case Nil
  then show ?case by (simp add: typing_Nil run_Nil)
next
  case (Cons k ks)
  obtain d v where k: "k = (d, v)" by (cases k)
  have d: "d < 300" and vq: "v \<noteq> q" using Cons.prems k by auto
  define s1 where "s1 = step (step s (Elapse d)) (Change v)"
  have e: "elapse d s = s\<lparr>clock := clock s + d\<rparr>"
    using Cons.prems(2) d by (intro elapse_armed_short [where due = "clock s + 300" and q = q]) auto
  have s1: "s1 = s\<lparr>clock := clock s + d, searchQuery := v, timer := Some (clock s + d + 300, v)\<rparr>"
    using vq Cons.prems(1) by (simp add: s1_def e setSearchQuery_def)
  have IH: "(\<forall>n. searchCalls (run s1 (take n (typing ks))) = searchCalls s1)
       \<and> searchQuery (run s1 (typing ks)) = last (v # map snd ks)
       \<and> timer (run s1 (typing ks)) = Some (clock (run s1 (typing ks)) + 300, last (v # map snd ks))"
    using Cons.prems(3,4) k by (intro Cons.IH) (auto simp: s1)
  have r: "run s (typing (k # ks)) = run s1 (typing ks)"
    by (simp add: k typing_Cons run_Cons s1_def)
  have pre: "searchCalls (run s (take n (typing (k # ks)))) = searchCalls s" for n
  proof (cases n)
    case 0
    then show ?thesis by (simp add: run_Nil)
  next
    case (Suc m)
    show ?thesis
    proof (cases m)
      case 0
      then show ?thesis by (simp add: Suc k typing_Cons run_Cons run_Nil e)
    next
      case (Suc j)
      have "run s (take n (typing (k # ks))) = run s1 (take j (typing ks))"
        by (simp add: \<open>n = Suc m\<close> Suc k typing_Cons run_Cons s1_def)
      then show ?thesis using IH by (simp add: s1)
    qed
  qed
  show ?case
    unfolding r using IH pre by (simp add: s1 k)
qed

lemma elapse_fires:
  assumes "timer s = Some (due, q)" "due \<le> clock s + d"
  shows "elapse d s = (handleSearch q (s\<lparr>clock := due, timer := None\<rparr>))\<lparr>clock := clock s + d\<rparr>"
  using assms by (simp add: elapse_def)

lemma elapse_idle:
  assumes "timer s = None"
  shows "elapse d s = s\<lparr>clock := clock s + d\<rparr>"
  using assms by (simp add: elapse_def)

lemma timer_handleSearch: "timer (handleSearch q s) = timer s"
  by (simp add: handleSearch_def)

subsection \<open>Responses and supersession\<close>






subsection \<open>Minimum length\<close>

text \<open>
  Claim C2, as amended. For every query shorter than 2 characters, \<open>handleSearch\<close>
  issues no remote search and clears the displayed results. It runs when the
  quiet-period timer fires: the input change itself, and any wait shorter than 300,
  leave the displayed results as they were; after a wait of 300 or more they are empty,
  and no remote search has been issued.
\<close>

theorem short_query_cleared_when_timer_fires:
  assumes "length q < 2" and "q \<noteq> searchQuery s"
  shows "searchResults (handleSearch q s) = [] \<and> searchCalls (handleSearch q s) = searchCalls s
       \<and> searchResults (step s (Change q)) = searchResults s
       \<and> searchCalls (step s (Change q)) = searchCalls s
       \<and> (\<forall>d < 300. searchResults (run s [Change q, Elapse d]) = searchResults s
                    \<and> searchCalls (run s [Change q, Elapse d]) = searchCalls s)
       \<and> (\<forall>d \<ge> 300. searchResults (run s [Change q, Elapse d]) = []
                    \<and> searchCalls (run s [Change q, Elapse d]) = searchCalls s)"
  using assms by (simp add: run_def setSearchQuery_def elapse_def handleSearch_def)

text \<open>Witness for C2: the field showing results for \<open>ab\<close> is changed to \<open>a\<close>.\<close>

theorem short_query_cleared_when_timer_fires_witness:
  "length ''a'' < 2 \<and> ''a'' \<noteq> searchQuery showing_ab
   \<and> searchResults showing_ab = [abba, abc]
   \<and> searchResults (step showing_ab (Change ''a'')) = [abba, abc]
   \<and> searchResults (run showing_ab [Change ''a'', Elapse 299]) = [abba, abc]
   \<and> searchResults (run showing_ab [Change ''a'', Elapse 300]) = []
   \<and> searchCalls (run showing_ab [Change ''a'', Elapse 300]) = [(300, ''ab'', 8)]"
proof -
  have h1: "length ''a'' < 2" by simp
  have h2: "''a'' \<noteq> searchQuery showing_ab" by (simp add: showing_ab_eq)
  note t = short_query_cleared_when_timer_fires [OF h1 h2]
  have r: "searchResults showing_ab = [abba, abc]" and c: "searchCalls showing_ab = [(300, ''ab'', 8)]"
    by (simp_all add: showing_ab_eq)
  from t have a: "searchResults (step showing_ab (Change ''a'')) = [abba, abc]"
    unfolding r by blast
  from t have b: "searchResults (run showing_ab [Change ''a'', Elapse 299]) = [abba, abc]"
    unfolding r by simp
  from t have d: "searchResults (run showing_ab [Change ''a'', Elapse 300]) = []
      \<and> searchCalls (run showing_ab [Change ''a'', Elapse 300]) = [(300, ''ab'', 8)]"
    unfolding c by simp
  show ?thesis using h1 h2 r a b d by (simp only: simp_thms)
qed

text \<open>
  Counterexample to C2 as stated: right after the input has changed to \<open>a\<close>, and
  still 299 time-units later, the results of the earlier search are displayed.
\<close>

theorem short_query_counterexample:
  "searchQuery (run mount [Change ''ab'', Elapse 300, SearchFulfilled 0 (Artists [abba, abc]),
                           Change ''a'']) = ''a''
   \<and> searchResults (run mount [Change ''ab'', Elapse 300, SearchFulfilled 0 (Artists [abba, abc]),
                               Change ''a'']) = [abba, abc]
   \<and> searchResults (run mount [Change ''ab'', Elapse 300, SearchFulfilled 0 (Artists [abba, abc]),
                               Change ''a'', Elapse 299]) = [abba, abc]"
  by (simp add: section_defs)

subsection \<open>Debounce\<close>

text \<open>
  Claim C3, as amended. For every sequence of input changes, each less than 300
  time-units after the one before, no remote search is issued at any moment of the
  typing, nor during a following wait shorter than 300. Once the input has been stable
  for 300 time-units the search handler runs once, for the final value: it issues
  exactly one remote search when that value has at least 2 characters and none
  otherwise, and waiting longer issues nothing more.
\<close>

theorem debounce_collapse:
  assumes "q0 \<noteq> searchQuery s"
    and "\<forall>(d, v) \<in> set ks. d < 300"
    and "distinct_adj (q0 # map snd ks)"
    and "s1 = run s (Change q0 # typing ks)"
    and "qf = last (q0 # map snd ks)"
  shows "(\<forall>n. searchCalls (run s (take n (Change q0 # typing ks))) = searchCalls s)
       \<and> (\<forall>d < 300. searchCalls (run s1 [Elapse d]) = searchCalls s)
       \<and> (\<forall>d \<ge> 300. searchCalls (run s1 [Elapse d]) =
             (if 2 \<le> length qf then searchCalls s @ [(clock s1 + 300, qf, 8)] else searchCalls s))
       \<and> (\<forall>d \<ge> 300. \<forall>d'. searchCalls (run s1 [Elapse d, Elapse d']) = searchCalls (run s1 [Elapse d]))"
proof -
  define s0 where "s0 = step s (Change q0)"
  have s0: "s0 = s\<lparr>searchQuery := q0, timer := Some (clock s + 300, q0)\<rparr>"
    using assms(1) by (simp add: s0_def setSearchQuery_def)
  have inv: "(\<forall>n. searchCalls (run s0 (take n (typing ks))) = searchCalls s0)
       \<and> searchQuery (run s0 (typing ks)) = last (q0 # map snd ks)
       \<and> timer (run s0 (typing ks)) = Some (clock (run s0 (typing ks)) + 300, last (q0 # map snd ks))"
    using assms(2,3) by (intro typing_keeps_calls) (simp_all add: s0)
  have s1: "s1 = run s0 (typing ks)"
    by (simp add: assms(4) run_Cons s0_def)
  have tm: "timer s1 = Some (clock s1 + 300, qf)"
    using inv by (simp add: s1 assms(5))
  have calls: "searchCalls s1 = searchCalls s"
    using inv [THEN conjunct1, rule_format, of "length (typing ks)"] by (simp add: s1 s0)
  have A: "searchCalls (run s (take n (Change q0 # typing ks))) = searchCalls s" for n
  proof (cases n)
    case 0
    then show ?thesis by (simp add: run_Nil)
  next
    case (Suc m)
    have "run s (take n (Change q0 # typing ks)) = run s0 (take m (typing ks))"
      unfolding Suc take_Suc_Cons run_Cons s0_def ..
    then show ?thesis
      using inv [THEN conjunct1, rule_format, of m] by (simp add: s0)
  qed
  have B: "searchCalls (run s1 [Elapse d]) = searchCalls s" if "d < 300" for d
    using that calls elapse_armed_short [OF tm, of d] by (simp add: run_Cons run_Nil)
  have fire: "elapse d s1 = (handleSearch qf (s1\<lparr>clock := clock s1 + 300, timer := None\<rparr>))\<lparr>clock := clock s1 + d\<rparr>"
    if "300 \<le> d" for d
    using that by (intro elapse_fires [OF tm]) simp
  have C: "searchCalls (run s1 [Elapse d]) =
             (if 2 \<le> length qf then searchCalls s @ [(clock s1 + 300, qf, 8)] else searchCalls s)"
    if "300 \<le> d" for d
    using calls by (simp add: run_Cons run_Nil fire [OF that] handleSearch_def)
  have D: "searchCalls (run s1 [Elapse d, Elapse d']) = searchCalls (run s1 [Elapse d])"
    if "300 \<le> d" for d d'
  proof -
    have "timer (elapse d s1) = None"
      by (simp add: fire [OF that] timer_handleSearch)
    then show ?thesis
      by (simp add: run_Cons run_Nil elapse_idle)
  qed
  show ?thesis using A B C D by blast
qed

text \<open>Witness for C3: \<open>a\<close>, \<open>ab\<close>, \<open>abc\<close> typed 120 and 250 time-units apart.\<close>

theorem debounce_collapse_witness:
  "searchCalls (run mount (take 4 (Change ''a'' # typing [(120, ''ab''), (250, ''abc'')]))) = []
   \<and> searchCalls (run (run mount (Change ''a'' # typing [(120, ''ab''), (250, ''abc'')])) [Elapse 299]) = []
   \<and> searchCalls (run (run mount (Change ''a'' # typing [(120, ''ab''), (250, ''abc'')])) [Elapse 300])
       = [(670, ''abc'', 8)]
   \<and> searchCalls (run (run mount (Change ''a'' # typing [(120, ''ab''), (250, ''abc'')])) [Elapse 300, Elapse 900])
       = [(670, ''abc'', 8)]"
proof -
  have h1: "''a'' \<noteq> searchQuery mount" by (simp add: mount_def)
  have h2: "\<forall>(d, v) \<in> set [(120, ''ab''), (250, ''abc'')]. d < (300::nat)" by simp
  have h3: "distinct_adj (''a'' # map snd [(120::nat, ''ab''), (250, ''abc'')])" by simp
  note t = debounce_collapse [OF h1 h2 h3 refl refl]
  have c: "clock (run mount (Change ''a'' # typing [(120, ''ab''), (250, ''abc'')])) = 370"
    by (simp add: run_def typing_def mount_def setSearchQuery_def elapse_def)
  have m: "searchCalls mount = []" by (simp add: mount_def)
  from t have a: "searchCalls (run mount (take 4 (Change ''a'' # typing [(120, ''ab''), (250, ''abc'')]))) = []"
    unfolding m by blast
  from t have b: "searchCalls (run (run mount (Change ''a'' # typing [(120, ''ab''), (250, ''abc'')])) [Elapse 299]) = []"
    unfolding m by simp
  from t have c3: "searchCalls (run (run mount (Change ''a'' # typing [(120, ''ab''), (250, ''abc'')])) [Elapse 300])
       = [(670, ''abc'', 8)]"
    unfolding m c by simp
  from t have d: "searchCalls (run (run mount (Change ''a'' # typing [(120, ''ab''), (250, ''abc'')])) [Elapse 300, Elapse 900])
       = searchCalls (run (run mount (Change ''a'' # typing [(120, ''ab''), (250, ''abc'')])) [Elapse 300])"
    by simp
  show ?thesis using a b c3 d by simp
qed

text \<open>
  Counterexample to C3 as stated: the single character \<open>a\<close> is typed and the input
  then stays stable; no remote search is issued, however long the wait.
\<close>

theorem debounce_collapse_counterexample:
  "searchQuery (run mount [Change ''a'', Elapse 300]) = ''a''
   \<and> searchCalls (run mount [Change ''a'', Elapse 300]) = []
   \<and> searchCalls (run mount [Change ''a'', Elapse 300, Elapse 100000]) = []"
  by (simp add: section_defs)

subsection \<open>Failed searches\<close>

text \<open>
  Claim C9. When the request of a search in flight fails, the displayed results become
  empty and the loading flag is cleared; no alert is shown and the query, the follow
  marker, the timer and the calls made are untouched.
\<close>

theorem failed_search_swallowed:
  assumes "rid \<in> set (searchPending s)"
  shows "searchResults (step s (SearchRejected rid e)) = []
       \<and> isSearching (step s (SearchRejected rid e)) = False
       \<and> alerts (step s (SearchRejected rid e)) = alerts s
       \<and> searchQuery (step s (SearchRejected rid e)) = searchQuery s
       \<and> addingArtistId (step s (SearchRejected rid e)) = addingArtistId s
       \<and> timer (step s (SearchRejected rid e)) = timer s
       \<and> searchCalls (step s (SearchRejected rid e)) = searchCalls s
       \<and> rid \<notin> set (searchPending (step s (SearchRejected rid e)))"
  using assms by (simp add: search_rejected_def)

text \<open>Witness for C9: the search for \<open>ab\<close> fails with a network fault.\<close>

theorem failed_search_swallowed_witness:
  "0 \<in> set (searchPending searching_ab) \<and> isSearching searching_ab
   \<and> searchResults (step searching_ab (SearchRejected 0 NetworkError)) = []
   \<and> isSearching (step searching_ab (SearchRejected 0 NetworkError)) = False
   \<and> alerts (step searching_ab (SearchRejected 0 NetworkError)) = []"
proof -
  have h: "0 \<in> set (searchPending searching_ab)" by (simp add: searching_ab_eq)
  show ?thesis
    using failed_search_swallowed [OF h, of NetworkError] h by (simp add: searching_ab_eq)
qed

section \<open>Properties of following an artist\<close>

text \<open>
  Claim C7. When a follow request in flight fails, the message shown is the
  already-followed message if the backend answered 409 and the generic retry message
  for every other error; the two messages differ, and a successful request shows none.
\<close>

theorem conflict_distinguished_from_failure:
  assumes "aid \<in> set (addPending s)"
  shows "alerts (step s (AddRejected aid (HttpError 409))) = alerts s @ [already_followed_message]
       \<and> (e \<noteq> HttpError 409 \<longrightarrow> alerts (step s (AddRejected aid e)) = alerts s @ [failed_message])
       \<and> alerts (step s (AddFulfilled aid)) = alerts s
       \<and> already_followed_message \<noteq> failed_message"
  using assms
  by (cases e) (simp_all add: add_rejected_def add_fulfilled_def setSearchQuery_def response_status_def
      already_followed_message_def failed_message_def)

text \<open>Witness for C7: the follow request for the first result fails in three ways.\<close>

theorem conflict_distinguished_from_failure_witness:
  "0 \<in> set (addPending following_abba)
   \<and> alerts (step following_abba (AddRejected 0 (HttpError 409)))
       = [''This artist is already in your follow list!'']
   \<and> alerts (step following_abba (AddRejected 0 NetworkError))
       = [''Failed to add artist. Please try again.'']
   \<and> alerts (step following_abba (AddRejected 0 (HttpError 500)))
       = [''Failed to add artist. Please try again.'']"
proof -
  have h: "0 \<in> set (addPending following_abba)" by (simp add: following_abba_eq)
  have a: "alerts following_abba = []" by (simp add: following_abba_eq)
  from conflict_distinguished_from_failure [OF h, of NetworkError]
  have n: "alerts (step following_abba (AddRejected 0 NetworkError)) = [failed_message]"
    and c: "alerts (step following_abba (AddRejected 0 (HttpError 409))) = [already_followed_message]"
    unfolding a by simp_all
  from conflict_distinguished_from_failure [OF h, of "HttpError 500"]
  have f: "alerts (step following_abba (AddRejected 0 (HttpError 500))) = [failed_message]"
    unfolding a by simp
  show ?thesis
    using h n c f by (simp only: simp_thms already_followed_message_def failed_message_def)
qed

text \<open>
  Claim C10. A follow request that fails, with a conflict or otherwise, leaves the
  query and the displayed results as they were, as does starting the request; a
  request that succeeds clears both; either way the follow marker is reset.
\<close>

theorem failed_add_keeps_search_state:
  assumes "aid \<in> set (addPending s)"
  shows "searchQuery (step s (AddRejected aid e)) = searchQuery s
       \<and> searchResults (step s (AddRejected aid e)) = searchResults s
       \<and> addingArtistId (step s (AddRejected aid e)) = None
       \<and> searchQuery (step s (AddFulfilled aid)) = []
       \<and> searchResults (step s (AddFulfilled aid)) = []
       \<and> addingArtistId (step s (AddFulfilled aid)) = None
       \<and> searchQuery (handleAddArtist a s) = searchQuery s
       \<and> searchResults (handleAddArtist a s) = searchResults s"
  using assms by (simp add: add_rejected_def add_fulfilled_def setSearchQuery_def handleAddArtist_def)

text \<open>Witness for C10: the follow request for the first result fails, or succeeds.\<close>

theorem failed_add_keeps_search_state_witness:
  "0 \<in> set (addPending following_abba)
   \<and> addingArtistId following_abba = Some ''mbid-abba''
   \<and> searchQuery (step following_abba (AddRejected 0 (HttpError 409))) = ''ab''
   \<and> searchResults (step following_abba (AddRejected 0 (HttpError 409))) = [abba, abc]
   \<and> addingArtistId (step following_abba (AddRejected 0 (HttpError 409))) = None
   \<and> searchQuery (step following_abba (AddFulfilled 0)) = []
   \<and> searchResults (step following_abba (AddFulfilled 0)) = []
   \<and> addingArtistId (step following_abba (AddFulfilled 0)) = None"
proof -
  have h: "0 \<in> set (addPending following_abba)" by (simp add: following_abba_eq)
  show ?thesis
    using failed_add_keeps_search_state [OF h, of "HttpError 409"] h
    by (simp add: following_abba_eq)
qed

section \<open>Properties of the connection gate\<close>

lemma apiConnected_navigation:
  "apiConnected (foldl (\<lambda>s v. handleViewChange v s) s views) = apiConnected s"
  by (induction views arbitrary: s) (simp_all add: handleViewChange_def)

text \<open>
  Claim C8. While the connection state is unknown or disconnected, whatever views the
  user selects, the content area shows the connection guidance, a view that calls no
  backend method.
\<close>

theorem disconnected_shows_only_guidance:
  assumes "apiConnected s = None \<or> apiConnected s = Some False"
  shows "content (foldl (\<lambda>s v. handleViewChange v s) s views) = ConnectionHelp
       \<and> view_api (content (foldl (\<lambda>s v. handleViewChange v s) s views)) = []
       \<and> MainContent view (apiConnected s) = ConnectionHelp"
  using assms by (auto simp: content_def MainContent_def apiConnected_navigation)

text \<open>
  Witness for C8: before the first probe has answered, and after a failed probe; after
  a successful probe the selected view is shown.
\<close>

theorem disconnected_shows_only_guidance_witness:
  "apiConnected initial_app = None
   \<and> content (foldl (\<lambda>s v. handleViewChange v s) initial_app [''artists'', ''stats'']) = ConnectionHelp
   \<and> apiConnected (testConnection False initial_app) = Some False
   \<and> content (foldl (\<lambda>s v. handleViewChange v s) (testConnection False initial_app) [''artists''])
       = ConnectionHelp
   \<and> content (foldl (\<lambda>s v. handleViewChange v s) (testConnection True initial_app) [''artists''])
       = ArtistsView"
proof -
  have h1: "apiConnected initial_app = None \<or> apiConnected initial_app = Some False"
    by (simp add: initial_app_def)
  have h2: "apiConnected (testConnection False initial_app) = None
          \<or> apiConnected (testConnection False initial_app) = Some False"
    by (simp add: testConnection_def)
  show ?thesis
    using disconnected_shows_only_guidance [OF h1, of "[''artists'', ''stats'']"]
      disconnected_shows_only_guidance [OF h2, of "[''artists'']"]
    by (simp add: initial_app_def testConnection_def handleViewChange_def content_def MainContent_def)
qed

end
